theory Spec2Isabelle
  imports Complex_Main
begin

section \<open>Python values used by the pipeline\<close>

text \<open>
  A Python \<open>str\<close> is a sequence of Unicode code points and \<open>len\<close> counts code points,
  so a string is a list of code points. The chunker only slices and measures its
  argument, so it is stated for lists over any element type.
\<close>

type_synonym pychar = nat
type_synonym pystr = "pychar list"

datatype py_error = ValueError | InvalidArgument

text \<open>
  Slicing \<open>xs[s:e]\<close>: a negative bound counts from the end, and every bound is
  clipped to \<open>0..len(xs)\<close>; a slice never raises.
\<close>

definition py_clip :: "int \<Rightarrow> int \<Rightarrow> int" where
  "py_clip n i = (if i < 0 then max 0 (i + n) else min i n)"

definition py_slice :: "'a list \<Rightarrow> int \<Rightarrow> int \<Rightarrow> 'a list" where
  "py_slice xs s e =
     (let n = int (length xs); a = py_clip n s; b = py_clip n e
      in take (nat (b - a)) (drop (nat a) xs))"

text \<open>\<open>str(i)\<close> of an integer: its decimal digits, with a leading minus sign.\<close>

fun digits_of :: "nat \<Rightarrow> pystr" where
  "digits_of n = (if n < 10 then [48 + n] else digits_of (n div 10) @ [48 + n mod 10])"

declare digits_of.simps [simp del]

definition py_str :: "int \<Rightarrow> pystr" where
  "py_str i = (if i < 0 then 45 # digits_of (nat (- i)) else digits_of (nat i))"

text \<open>The value of a digit string, read back (used to show that \<open>str\<close> is injective).\<close>

definition undigits :: "pystr \<Rightarrow> nat" where
  "undigits s = fold (\<lambda>c a. 10 * a + (c - 48)) s 0"

text \<open>
  \<open>str.isspace\<close> on one code point; the regular expression class \<open>\s\<close> and
  \<open>str.strip()\<close> both use this predicate.
\<close>

definition py_isspace :: "pychar \<Rightarrow> bool" where
  "py_isspace c =
     ((9 \<le> c \<and> c \<le> 13) \<or> (28 \<le> c \<and> c \<le> 32) \<or> c = 133 \<or> c = 160 \<or> c = 5760
      \<or> (8192 \<le> c \<and> c \<le> 8202) \<or> c = 8232 \<or> c = 8233 \<or> c = 8239 \<or> c = 8287
      \<or> c = 12288)"

section \<open>Text normalizer (scripts/load\_csv.py)\<close>

text \<open>
  \<open>re.sub(r'\s+', ' ', text)\<close>: every maximal run of whitespace is replaced by one space
  (code point 32).
\<close>

function re_sub_ws :: "pystr \<Rightarrow> pystr" where
  "re_sub_ws [] = []"
| "re_sub_ws (c # cs) =
     (if py_isspace c then 32 # re_sub_ws (dropWhile py_isspace cs) else c # re_sub_ws cs)"
  by pat_completeness auto
termination
  by (relation "measure length") (auto simp: less_Suc_eq_le length_dropWhile_le)

text \<open>\<open>text.strip()\<close>: leading whitespace is skipped, then trailing whitespace.\<close>

definition py_strip :: "pystr \<Rightarrow> pystr" where
  "py_strip s = rev (dropWhile py_isspace (rev (dropWhile py_isspace s)))"

text \<open>
  \<open>normalize_whitespace\<close>; \<open>None\<close> is a missing value (\<open>pd.isna(text)\<close>), on a string
  \<open>str(text)\<close> is the string itself.
\<close>

definition normalize_whitespace :: "pystr option \<Rightarrow> pystr" where
  "normalize_whitespace text =
     (case text of
        None \<Rightarrow> []
      | Some s \<Rightarrow> if s = [] then [] else py_strip (re_sub_ws s))"

text \<open>
  The shape of a string after the whitespace runs are collapsed: every whitespace
  character is a space and is not followed by another whitespace character.
\<close>

fun tidy :: "pystr \<Rightarrow> bool" where
  "tidy [] = True"
| "tidy [c] = (py_isspace c \<longrightarrow> c = 32)"
| "tidy (c # d # cs) = ((py_isspace c \<longrightarrow> c = 32 \<and> \<not> py_isspace d) \<and> tidy (d # cs))"

section \<open>Chunker (scripts/chunk\_notes.py)\<close>

definition CHUNK_SIZE :: int where "CHUNK_SIZE = 512"
definition CHUNK_OVERLAP :: int where "CHUNK_OVERLAP = 50"

text \<open>
  The \<open>while\<close> loop of \<open>chunk_text\<close>, with the loop variables \<open>start\<close> and \<open>chunks\<close> as
  arguments. The loop need not terminate, so the result is an option: \<open>None\<close> is a run
  that never returns.
\<close>

partial_function (option) chunk_loop ::
  "'a list \<Rightarrow> int \<Rightarrow> int \<Rightarrow> int \<Rightarrow> 'a list list \<Rightarrow> 'a list list option" where
  "chunk_loop text chunk_size overlap start chunks =
     (if start < int (length text) then
        (let end = start + chunk_size;
             chunk = py_slice text start end;
             chunks' = chunks @ [chunk];
             start' = end - overlap
         in if start' \<ge> int (length text) then Some chunks'
            else chunk_loop text chunk_size overlap start' chunks')
      else Some chunks)"

definition chunk_text :: "'a list \<Rightarrow> int \<Rightarrow> int \<Rightarrow> 'a list list option" where
  "chunk_text text chunk_size overlap =
     (if int (length text) \<le> chunk_size then Some [text]
      else chunk_loop text chunk_size overlap 0 [])"

text \<open>
  The reconstruction the specification describes: the first chunk, followed by every
  later chunk without its first \<open>overlap\<close> characters (\<open>chunk[overlap:]\<close>).
\<close>

fun reconstruct :: "nat \<Rightarrow> 'a list list \<Rightarrow> 'a list" where
  "reconstruct ov [] = []"
| "reconstruct ov (c # cs) = c @ concat (map (drop ov) cs)"

text \<open>
  The specification's length rule as a test on a chunk sequence: every chunk but the
  last one has length exactly \<open>chunk_size\<close>.
\<close>

definition full_before_last :: "int \<Rightarrow> 'a list list \<Rightarrow> bool" where
  "full_before_last chunk_size cks = list_all (\<lambda>c. int (length c) = chunk_size) (butlast cks)"

text \<open>A row of the cleaned note table that \<open>load_notes\<close> returns, and a chunk record.\<close>

record note_row =
  row_index :: int
  text_clean :: pystr
  row_created_at :: "int option"
  row_modified_at :: "int option"

record chunk =
  chunk_id :: int
  original_index :: int
  chunk_index :: int
  chunk_body :: pystr
  created_at :: "int option"
  modified_at :: "int option"
  total_chunks :: int

text \<open>
  The inner loop of \<open>chunk_notes\<close> over \<open>enumerate(chunks)\<close>; the state is the output list
  \<open>chunked_data\<close> and the counter \<open>chunk_id\<close>.
\<close>

fun emit_chunks ::
  "note_row \<Rightarrow> int \<Rightarrow> pystr list \<Rightarrow> int \<Rightarrow> chunk list \<Rightarrow> int \<Rightarrow> chunk list \<times> int" where
  "emit_chunks row n_total [] chunk_idx chunked_data cid = (chunked_data, cid)"
| "emit_chunks row n_total (chunk_content # rest) chunk_idx chunked_data cid =
     emit_chunks row n_total rest (chunk_idx + 1)
       (chunked_data @
         [\<lparr>chunk_id = cid, original_index = row_index row, chunk_index = chunk_idx,
           chunk_body = chunk_content, created_at = row_created_at row,
           modified_at = row_modified_at row, total_chunks = n_total\<rparr>])
       (cid + 1)"

text \<open>The outer loop over the rows; \<open>chunk_text\<close> runs with the configured defaults.\<close>

fun chunk_rows :: "note_row list \<Rightarrow> chunk list \<Rightarrow> int \<Rightarrow> chunk list option" where
  "chunk_rows [] chunked_data cid = Some chunked_data"
| "chunk_rows (row # rows) chunked_data cid =
     (case chunk_text (text_clean row) CHUNK_SIZE CHUNK_OVERLAP of
        None \<Rightarrow> None
      | Some chunks \<Rightarrow>
          (case emit_chunks row (int (length chunks)) chunks 0 chunked_data cid of
             (chunked_data', cid') \<Rightarrow> chunk_rows rows chunked_data' cid'))"

definition chunk_notes :: "note_row list \<Rightarrow> chunk list option" where
  "chunk_notes rows = chunk_rows rows [] 0"

section \<open>Embedding and metadata build (scripts/build\_embeddings.py)\<close>

type_synonym vec = "real list"

record metadata_record =
  meta_chunk_id :: int
  meta_text :: pystr
  meta_original_index :: int
  meta_created_at :: "int option"
  meta_modified_at :: "int option"

definition metadata_of :: "chunk \<Rightarrow> metadata_record" where
  "metadata_of c =
     \<lparr>meta_chunk_id = chunk_id c, meta_text = chunk_body c,
      meta_original_index = original_index c, meta_created_at = created_at c,
      meta_modified_at = modified_at c\<rparr>"

text \<open>
  The batch loop \<open>for i in range(0, len(texts), batch_size)\<close>. The embedding model is
  an external black box; \<open>encode\<close> is its value on one text, and encoding a batch maps it
  over the batch in order.
\<close>

function embed_batches ::
  "(pystr \<Rightarrow> vec) \<Rightarrow> pystr list \<Rightarrow> nat \<Rightarrow> nat \<Rightarrow> vec list list \<Rightarrow> vec list list" where
  "embed_batches encode texts batch_size i embeddings_list =
     (if i < length texts \<and> 0 < batch_size then
        embed_batches encode texts batch_size (i + batch_size)
          (embeddings_list @ [map encode (py_slice texts (int i) (int i + int batch_size))])
      else embeddings_list)"
  by pat_completeness auto
termination
  by (relation "measure (\<lambda>(encode, texts, batch_size, i, acc). length texts - i)") auto

declare embed_batches.simps [simp del]

text \<open>
  The dictionary comprehension \<open>{str(i): {...} for i, chunk in enumerate(chunks)}\<close>:
  records are stored in order, a later key overwriting an equal earlier one.
\<close>

fun build_metadata ::
  "nat \<Rightarrow> chunk list \<Rightarrow> (pystr \<rightharpoonup> metadata_record) \<Rightarrow> (pystr \<rightharpoonup> metadata_record)" where
  "build_metadata i [] m = m"
| "build_metadata i (c # cs) m = build_metadata (Suc i) cs (m(py_str (int i) \<mapsto> metadata_of c))"

text \<open>
  \<open>generate_embeddings\<close> on the loaded chunk list. \<open>np.vstack\<close> raises \<open>ValueError\<close> on an
  empty list of batches; the index holds the stacked rows in insertion order.
\<close>

definition generate_embeddings ::
  "(pystr \<Rightarrow> vec) \<Rightarrow> chunk list \<Rightarrow> py_error + (vec list \<times> (pystr \<rightharpoonup> metadata_record))" where
  "generate_embeddings encode chunks =
     (let texts = map chunk_body chunks;
          embeddings_list = embed_batches encode texts 32 0 []
      in if embeddings_list = [] then Inl ValueError
         else (let embeddings = concat embeddings_list;
                   index = embeddings;
                   metadata = build_metadata 0 chunks Map.empty
               in Inr (index, metadata)))"

section \<open>Vector index and retriever (scripts/retrieve.py)\<close>

text \<open>
  Modelled from the spec: the search of the flat exact index (\<open>faiss.IndexFlatL2\<close>, a
  library whose code is not among the sources). The specification (4.4) gives its
  contract: the result is a sequence of (slot, distance) in ascending order of the
  squared Euclidean distance to the query, holding the \<open>k\<close> nearest slots, or all of them
  when fewer than \<open>k\<close> are stored; an empty index gives an empty result. The library
  returns the distances and the slots as two arrays. A negative \<open>k\<close> is outside the
  contract and is an error. Vector components are real numbers, and all vectors have the
  dimension of the embedding model. \<open>l2_sqr\<close> is the squared Euclidean distance.
\<close>

definition l2_sqr :: "vec \<Rightarrow> vec \<Rightarrow> real" where
  "l2_sqr x y = sum_list (map (\<lambda>(a, b). (a - b)\<^sup>2) (zip x y))"

definition index_search :: "vec list \<Rightarrow> vec \<Rightarrow> int \<Rightarrow> py_error + (real list \<times> int list)" where
  "index_search xb q k =
     (if k < 0 then Inl InvalidArgument
      else (let scored = map (\<lambda>(slot, v). (int slot, l2_sqr q v)) (enumerate 0 xb);
                ranked = take (nat k) (sort_key snd scored)
            in Inr (map snd ranked, map fst ranked)))"

record search_result =
  res_text :: pystr
  res_chunk_id :: int
  res_original_index :: int
  res_created_at :: "int option"
  res_modified_at :: "int option"
  res_distance :: real

text \<open>
  The loop of \<open>retrieve\<close> over \<open>zip(indices[0], distances[0])\<close>, with the list \<open>results\<close>
  as accumulator; \<open>metadata.get(str(idx))\<close> is the lookup in the map.
\<close>

fun collect_results ::
  "(pystr \<rightharpoonup> metadata_record) \<Rightarrow> (int \<times> real) list \<Rightarrow> search_result list \<Rightarrow> search_result list" where
  "collect_results metadata [] results = results"
| "collect_results metadata ((idx, distance) # rest) results =
     (case metadata (py_str idx) of
        None \<Rightarrow> collect_results metadata rest results
      | Some chunk_meta \<Rightarrow>
          collect_results metadata rest
            (results @
              [\<lparr>res_text = meta_text chunk_meta, res_chunk_id = meta_chunk_id chunk_meta,
                res_original_index = meta_original_index chunk_meta,
                res_created_at = meta_created_at chunk_meta,
                res_modified_at = meta_modified_at chunk_meta,
                res_distance = distance\<rparr>]))"

definition retrieve ::
  "(pystr \<Rightarrow> vec) \<Rightarrow> vec list \<Rightarrow> (pystr \<rightharpoonup> metadata_record) \<Rightarrow> pystr \<Rightarrow> int
     \<Rightarrow> py_error + search_result list" where
  "retrieve encode index metadata query top_k =
     (let query_embedding = encode query
      in case index_search index query_embedding (min top_k (int (length index))) of
           Inl e \<Rightarrow> Inl e
         | Inr (distances, indices) \<Rightarrow>
             Inr (collect_results metadata (zip indices distances) []))"

text \<open>The result the claims describe for one search hit with metadata record \<open>m\<close>.\<close>

definition result_of :: "metadata_record \<Rightarrow> real \<Rightarrow> search_result" where
  "result_of m d =
     \<lparr>res_text = meta_text m, res_chunk_id = meta_chunk_id m,
      res_original_index = meta_original_index m, res_created_at = meta_created_at m,
      res_modified_at = meta_modified_at m, res_distance = d\<rparr>"

section \<open>Properties of the chunker\<close>

lemma py_slice_window:
  assumes "0 \<le> s" "0 \<le> w"
  shows "py_slice xs s (s + w) = take (nat w) (drop (nat s) xs)"
proof (cases "s \<le> int (length xs)")
  case True
  show ?thesis
  proof (cases "s + w \<le> int (length xs)")
    case True
    with assms \<open>s \<le> int (length xs)\<close> show ?thesis
      by (simp add: py_slice_def py_clip_def Let_def min_def)
  next
    case False
    with assms \<open>s \<le> int (length xs)\<close> show ?thesis
      by (simp add: py_slice_def py_clip_def Let_def min_def)
  qed
next
  case False
  with assms show ?thesis
    by (simp add: py_slice_def py_clip_def Let_def min_def)
qed

lemma chunk_loop_exit:
  "int (length text) \<le> start \<Longrightarrow> chunk_loop text chunk_size overlap start chunks = Some chunks"
  by (subst chunk_loop.simps) simp

lemma chunk_loop_step:
  assumes "start < int (length text)"
  shows "chunk_loop text chunk_size overlap start chunks =
     chunk_loop text chunk_size overlap (start + chunk_size - overlap)
       (chunks @ [py_slice text start (start + chunk_size)])"
proof (cases "int (length text) \<le> start + chunk_size - overlap")
  case True
  then show ?thesis
    using assms by (subst chunk_loop.simps) (simp add: Let_def chunk_loop_exit)
next
  case False
  then show ?thesis
    using assms by (subst chunk_loop.simps) (simp add: Let_def)
qed

lemma chunk_loop_rule:
  assumes prog: "overlap < chunk_size"
    and init: "I start chunks"
    and step: "\<And>st cks. I st cks \<Longrightarrow> st < int (length text) \<Longrightarrow>
                 I (st + chunk_size - overlap) (cks @ [py_slice text st (st + chunk_size)])"
  shows "\<exists>r st'. chunk_loop text chunk_size overlap start chunks = Some r
           \<and> I st' r \<and> int (length text) \<le> st'"
  using init
proof (induction "nat (int (length text) - start)" arbitrary: start chunks rule: less_induct)
  case less
  show ?case
  proof (cases "start < int (length text)")
    case False
    then have "chunk_loop text chunk_size overlap start chunks = Some chunks"
      by (simp add: chunk_loop_exit)
    with less.prems False show ?thesis by force
  next
    case True
    let ?st = "start + chunk_size - overlap"
    let ?cks = "chunks @ [py_slice text start (start + chunk_size)]"
    have inv: "I ?st ?cks" using step [OF less.prems True] .
    have "nat (int (length text) - ?st) < nat (int (length text) - start)"
      using prog True by linarith
    from less.hyps [OF this inv] show ?thesis
      by (simp add: chunk_loop_step [OF True])
  qed
qed

lemma chunk_loop_diverges:
  assumes run: "chunk_loop text chunk_size overlap start chunks = Some r"
  shows "\<not> (chunk_size \<le> overlap \<and> start \<le> 0 \<and> 0 < length text)"
proof (rule chunk_loop.raw_induct
    [where P = "\<lambda>t c ov st ck r. \<not> (c \<le> ov \<and> st \<le> 0 \<and> 0 < length t)", OF _ run])
  fix loop :: "'a list \<Rightarrow> int \<Rightarrow> int \<Rightarrow> int \<Rightarrow> 'a list list \<Rightarrow> 'a list list option"
  fix T :: "'a list" and c ov st :: int and ck r :: "'a list list"
  assume IH: "\<And>T c ov st ck r. loop T c ov st ck = Some r \<Longrightarrow>
                 \<not> (c \<le> ov \<and> st \<le> 0 \<and> 0 < length T)"
  assume body: "(if st < int (length T) then
        (let end = st + c;
             chunk = py_slice T st end;
             chunks' = ck @ [chunk];
             start' = end - ov
         in if start' \<ge> int (length T) then Some chunks'
            else loop T c ov start' chunks')
      else Some ck) = Some r"
  show "\<not> (c \<le> ov \<and> st \<le> 0 \<and> 0 < length T)"
  proof
    assume bad: "c \<le> ov \<and> st \<le> 0 \<and> 0 < length T"
    then have lt: "st < int (length T)" by linarith
    have stay: "\<not> int (length T) \<le> st + c - ov" "st + c - ov \<le> 0"
      using bad by linarith+
    from body lt stay
    have "loop T c ov (st + c - ov) (ck @ [py_slice T st (st + c)]) = Some r"
      by (simp add: Let_def)
    from IH [OF this] bad stay show False by blast
  qed
qed

lemma chunk_text_bound_aux:
  fixes T :: "'a list"
  assumes valid: "0 < chunk_size" "0 \<le> overlap" "overlap < chunk_size"
  shows "\<exists>cks. chunk_text T chunk_size overlap = Some cks
           \<and> (\<forall>c \<in> set cks. int (length c) \<le> chunk_size)"
proof (cases "int (length T) \<le> chunk_size")
  case True
  then show ?thesis by (simp add: chunk_text_def)
next
  case False
  let ?I = "\<lambda>(st::int) (cks::'a list list). 0 \<le> st \<and> (\<forall>c \<in> set cks. int (length c) \<le> chunk_size)"
  have "\<exists>r st'. chunk_loop T chunk_size overlap 0 [] = Some r \<and> ?I st' r
          \<and> int (length T) \<le> st'"
  proof (rule chunk_loop_rule [where I = ?I])
    show "overlap < chunk_size" by fact
    show "?I 0 []" by simp
  next
    fix st :: int and cks :: "'a list list"
    assume inv: "?I st cks" and "st < int (length T)"
    have "py_slice T st (st + chunk_size) = take (nat chunk_size) (drop (nat st) T)"
      using inv valid by (simp add: py_slice_window)
    then have "int (length (py_slice T st (st + chunk_size))) \<le> chunk_size"
      using valid by simp
    with inv valid
    show "?I (st + chunk_size - overlap) (cks @ [py_slice T st (st + chunk_size)])"
      by auto
  qed
  with False show ?thesis by (auto simp: chunk_text_def)
qed

lemma reconstruct_snoc:
  "cks \<noteq> [] \<Longrightarrow> reconstruct ov (cks @ [c]) = reconstruct ov cks @ drop ov c"
  by (cases cks) simp_all

lemma chunk_text_reconstruct_aux:
  fixes T :: "'a list"
  assumes valid: "0 < chunk_size" "0 \<le> overlap" "overlap < chunk_size"
  shows "\<exists>cks. chunk_text T chunk_size overlap = Some cks \<and> cks \<noteq> []
           \<and> reconstruct (nat overlap) cks = T"
proof (cases "int (length T) \<le> chunk_size")
  case True
  then show ?thesis by (simp add: chunk_text_def)
next
  case False
  let ?I = "\<lambda>(st::int) (cks::'a list list). 0 \<le> st \<and>
      (if cks = [] then st = 0
       else reconstruct (nat overlap) cks = take (nat (st + overlap)) T)"
  have "\<exists>r st'. chunk_loop T chunk_size overlap 0 [] = Some r \<and> ?I st' r
          \<and> int (length T) \<le> st'"
  proof (rule chunk_loop_rule [where I = ?I])
    show "overlap < chunk_size" by fact
    show "?I 0 []" by simp
  next
    fix st :: int and cks :: "'a list list"
    assume inv: "?I st cks" and "st < int (length T)"
    from inv have st0: "0 \<le> st" by simp
    let ?c = "py_slice T st (st + chunk_size)"
    have c: "?c = take (nat chunk_size) (drop (nat st) T)"
      using st0 valid by (simp add: py_slice_window)
    have pos: "0 \<le> st + chunk_size - overlap" using st0 valid by simp
    show "?I (st + chunk_size - overlap) (cks @ [?c])"
    proof (cases "cks = []")
      case True
      with inv have "st = 0" by simp
      with True c pos show ?thesis by simp
    next
      case False
      with inv have r: "reconstruct (nat overlap) cks = take (nat (st + overlap)) T" by simp
      have "drop (nat overlap) ?c
              = take (nat chunk_size - nat overlap) (drop (nat overlap + nat st) T)"
        by (simp add: c drop_take)
      moreover have "nat overlap + nat st = nat (st + overlap)"
        using st0 valid by simp
      moreover have "nat (st + overlap) + (nat chunk_size - nat overlap) = nat (st + chunk_size)"
        using st0 valid by simp
      ultimately
      have "reconstruct (nat overlap) cks @ drop (nat overlap) ?c = take (nat (st + chunk_size)) T"
        using r by (simp add: take_add [symmetric])
      with False pos show ?thesis by (simp add: reconstruct_snoc)
    qed
  qed
  then obtain r st' where run: "chunk_loop T chunk_size overlap 0 [] = Some r"
    and inv: "?I st' r" and fin: "int (length T) \<le> st'" by blast
  have "r \<noteq> []"
  proof
    assume "r = []"
    with inv have "st' = 0" by simp
    with fin False valid show False by simp
  qed
  with inv fin valid have "reconstruct (nat overlap) r = T" by simp
  with run False \<open>r \<noteq> []\<close> show ?thesis by (simp add: chunk_text_def)
qed

lemma chunk_text_no_progress:
  assumes "chunk_size \<le> overlap" "chunk_size < int (length T)" "T \<noteq> []"
  shows "chunk_text T chunk_size overlap = None"
proof (cases "chunk_text T chunk_size overlap")
  case None
  then show ?thesis .
next
  case (Some r)
  with assms have "chunk_loop T chunk_size overlap 0 [] = Some r"
    by (simp add: chunk_text_def)
  from chunk_loop_diverges [OF this] assms show ?thesis by simp
qed

lemma chunk_text_lengths_aux:
  fixes T :: "'a list"
  assumes valid: "0 < chunk_size" "0 \<le> overlap" "overlap < chunk_size"
  shows "\<exists>cks. chunk_text T chunk_size overlap = Some cks
           \<and> (\<forall>k<length cks. int (length (cks ! k))
                  = min chunk_size (int (length T) - int k * (chunk_size - overlap)))"
proof (cases "int (length T) \<le> chunk_size")
  case True
  then show ?thesis by (simp add: chunk_text_def)
next
  case False
  let ?s = "chunk_size - overlap"
  let ?I = "\<lambda>(st::int) (cks::'a list list). st = int (length cks) * ?s \<and>
      (\<forall>k<length cks. int (length (cks ! k)) = min chunk_size (int (length T) - int k * ?s))"
  have "\<exists>r st'. chunk_loop T chunk_size overlap 0 [] = Some r \<and> ?I st' r
          \<and> int (length T) \<le> st'"
  proof (rule chunk_loop_rule [where I = ?I])
    show "overlap < chunk_size" by fact
    show "?I 0 []" by simp
  next
    fix st :: int and cks :: "'a list list"
    assume inv: "?I st cks" and lt: "st < int (length T)"
    from inv have st: "st = int (length cks) * ?s" by simp
    with valid have st0: "0 \<le> st" by simp
    let ?c = "py_slice T st (st + chunk_size)"
    have "?c = take (nat chunk_size) (drop (nat st) T)"
      using st0 valid by (simp add: py_slice_window)
    then have "length ?c = min (nat chunk_size) (length T - nat st)"
      by simp
    then have len: "int (length ?c) = min chunk_size (int (length T) - st)"
      using st0 lt valid by arith
    have "st + chunk_size - overlap = int (length (cks @ [?c])) * ?s"
      by (simp add: st algebra_simps)
    moreover have "int (length ((cks @ [?c]) ! k))
        = min chunk_size (int (length T) - int k * ?s)" if "k < length (cks @ [?c])" for k
    proof (cases "k < length cks")
      case True
      with inv show ?thesis by (simp add: nth_append)
    next
      case False
      with that have "k = length cks" by simp
      with len st show ?thesis by (simp add: nth_append)
    qed
    ultimately show "?I (st + chunk_size - overlap) (cks @ [?c])" by blast
  qed
  with False show ?thesis by (auto simp: chunk_text_def)
qed


lemmas chunk_eval = chunk_text_def chunk_loop.simps py_slice_def py_clip_def Let_def

text \<open>
  Claim C1. The specification asks that a configuration with \<open>overlap \<ge> chunk_size\<close> is
  rejected before chunking begins instead of running forever. \<open>chunk_text\<close> has no such
  check: on \<open>chunk_text("abc", 2, 2)\<close> the window never advances and the call does not
  return, while on a text no longer than \<open>chunk_size\<close> the same configuration is accepted
  and the text is returned as one chunk.
\<close>

theorem chunk_text_invalid_overlap_not_rejected:
  "chunk_text ''abc'' 2 2 = None \<and> chunk_text ''ab'' 2 2 = Some [''ab'']"
proof
  show "chunk_text ''abc'' 2 2 = None"
    by (rule chunk_text_no_progress) simp_all
  show "chunk_text ''ab'' 2 2 = Some [''ab'']"
    by (simp add: chunk_text_def)
qed

text \<open>
  Claim C2. For every text and every valid configuration (\<open>chunk_size > 0\<close>,
  \<open>0 \<le> overlap < chunk_size\<close>), \<open>chunk_text\<close> returns a non-empty chunk sequence, and the
  first chunk followed by every later chunk without its first \<open>overlap\<close> characters is the
  text again.
\<close>

theorem chunk_text_reconstruction:
  "0 < chunk_size \<Longrightarrow> 0 \<le> overlap \<Longrightarrow> overlap < chunk_size \<Longrightarrow>
   \<exists>cks. chunk_text T chunk_size overlap = Some cks \<and> cks \<noteq> []
            \<and> reconstruct (nat overlap) cks = T"
  by (rule chunk_text_reconstruct_aux)

theorem chunk_text_reconstruction_witness:
  "(0::int) < 4 \<and> (0::int) \<le> 1 \<and> (1::int) < 4
   \<and> chunk_text ''abcdefghij'' 4 1 = Some [''abcd'', ''defg'', ''ghij'', ''j'']
   \<and> reconstruct (nat 1) [''abcd'', ''defg'', ''ghij'', ''j''] = ''abcdefghij''"
  using chunk_text_reconstruction [where T = "''abcdefghij''" and chunk_size = 4 and overlap = 1]
  by (simp add: chunk_eval)

text \<open>
  Claim C3, as stated, fails: every chunk except the final one should have length exactly
  \<open>chunk_size\<close>. The loop only stops when \<open>start\<close> has passed the end of the text, so with
  text \<open>abcd\<close>, \<open>chunk_size = 3\<close> and \<open>overlap = 2\<close> it returns \<open>abc, bcd, cd, d\<close>: the third
  chunk is short and is not the last.
\<close>

theorem chunk_text_short_before_last_counterexample:
  "(0::int) < 3 \<and> (0::int) \<le> 2 \<and> (2::int) < 3
   \<and> chunk_text ''abcd'' 3 2 = Some [''abc'', ''bcd'', ''cd'', ''d'']
   \<and> \<not> full_before_last 3 [''abc'', ''bcd'', ''cd'', ''d'']"
  by (simp add: chunk_eval full_before_last_def)

text \<open>
  Claim C3, amended. For every text \<open>T\<close> and every valid configuration, the \<open>k\<close>-th chunk
  (counted from 0) has length exactly \<open>min(chunk_size, len(T) - k * (chunk_size - overlap))\<close>:
  a chunk is shorter than \<open>chunk_size\<close> exactly when its window runs past the end of the
  text. Hence the short chunks form a trailing run of the sequence: every chunk after a
  short chunk is short as well.
\<close>

theorem chunk_text_chunk_lengths:
  "0 < chunk_size \<Longrightarrow> 0 \<le> overlap \<Longrightarrow> overlap < chunk_size \<Longrightarrow>
   \<exists>cks. chunk_text T chunk_size overlap = Some cks
     \<and> (\<forall>k<length cks. int (length (cks ! k))
            = min chunk_size (int (length T) - int k * (chunk_size - overlap)))
     \<and> (\<forall>i j. i \<le> j \<and> j < length cks \<and> int (length (cks ! i)) < chunk_size
            \<longrightarrow> int (length (cks ! j)) < chunk_size)"
proof -
  assume valid: "0 < chunk_size" "0 \<le> overlap" "overlap < chunk_size"
  from chunk_text_lengths_aux [OF valid, of T]
  obtain cks where run: "chunk_text T chunk_size overlap = Some cks"
    and len: "\<And>k. k < length cks \<Longrightarrow> int (length (cks ! k))
                = min chunk_size (int (length T) - int k * (chunk_size - overlap))"
    by blast
  have "int (length (cks ! j)) < chunk_size"
    if "i \<le> j" "j < length cks" "int (length (cks ! i)) < chunk_size" for i j
  proof -
    from that have "int i * (chunk_size - overlap) \<le> int j * (chunk_size - overlap)"
      using valid by (intro mult_right_mono) simp_all
    moreover from that len [of i]
    have "int (length T) - int i * (chunk_size - overlap) < chunk_size" by simp
    ultimately show ?thesis using len [OF that(2)] by simp
  qed
  with run len show ?thesis by blast
qed

theorem chunk_text_chunk_lengths_witness:
  "(0::int) < 3 \<and> (0::int) \<le> 2 \<and> (2::int) < 3
   \<and> chunk_text ''abcde'' 3 2 = Some [''abc'', ''bcd'', ''cde'', ''de'', ''e'']
   \<and> int (length ([''abc'', ''bcd'', ''cde'', ''de'', ''e''] ! 3))
        = min 3 (int (length ''abcde'') - int 3 * (3 - 2))
   \<and> int (length ([''abc'', ''bcd'', ''cde'', ''de'', ''e''] ! 3)) < 3
   \<and> int (length ([''abc'', ''bcd'', ''cde'', ''de'', ''e''] ! 4)) < 3"
  using chunk_text_chunk_lengths [where T = "''abcde''" and chunk_size = 3 and overlap = 2]
  by (simp add: chunk_eval)

text \<open>
  Claim C6. A text no longer than \<open>chunk_size\<close> is returned as exactly one chunk, the
  text itself; and for every text and every valid configuration \<open>chunk_text\<close> returns a
  sequence in which every chunk has length at most \<open>chunk_size\<close>.
\<close>

theorem chunk_text_size_bound:
  "(int (length T) \<le> chunk_size \<longrightarrow> chunk_text T chunk_size overlap = Some [T])
   \<and> (0 < chunk_size \<and> 0 \<le> overlap \<and> overlap < chunk_size \<longrightarrow>
        (\<exists>cks. chunk_text T chunk_size overlap = Some cks
           \<and> (\<forall>c \<in> set cks. int (length c) \<le> chunk_size)))"
  using chunk_text_bound_aux [of chunk_size overlap T]
  by (simp add: chunk_text_def)

theorem chunk_text_size_bound_witness:
  "int (length ''note'') \<le> 4 \<and> chunk_text ''note'' 4 1 = Some [''note'']
   \<and> (0::int) < 4 \<and> (0::int) \<le> 1 \<and> (1::int) < 4
   \<and> chunk_text ''abcdefgh'' 4 1 = Some [''abcd'', ''defg'', ''gh'']
   \<and> int (length ''abcd'') \<le> 4 \<and> int (length ''defg'') \<le> 4 \<and> int (length ''gh'') \<le> 4"
  using chunk_text_size_bound [where T = "''note''" and chunk_size = 4 and overlap = 1]
    chunk_text_size_bound [where T = "''abcdefgh''" and chunk_size = 4 and overlap = 1]
  by (simp add: chunk_eval)

section \<open>Properties of the text normalizer\<close>

lemma py_isspace_space: "py_isspace 32"
  by (simp add: py_isspace_def)

lemma tidy_Cons:
  "tidy (c # r) \<longleftrightarrow> (py_isspace c \<longrightarrow> c = 32 \<and> (r = [] \<or> \<not> py_isspace (hd r))) \<and> tidy r"
  by (cases r) auto

lemma re_sub_ws_head:
  "s = [] \<or> \<not> py_isspace (hd s) \<Longrightarrow> re_sub_ws s = [] \<or> \<not> py_isspace (hd (re_sub_ws s))"
  by (cases s) auto

lemma dropWhile_head: "dropWhile P xs = [] \<or> \<not> P (hd (dropWhile P xs))"
  using hd_dropWhile [of P xs] by blast

lemma tidy_re_sub_ws: "tidy (re_sub_ws s)"
proof (induction s rule: re_sub_ws.induct)
  case 1
  show ?case by simp
next
  case (2 c cs)
  show ?case
  proof (cases "py_isspace c")
    case True
    have "re_sub_ws (dropWhile py_isspace cs) = []
        \<or> \<not> py_isspace (hd (re_sub_ws (dropWhile py_isspace cs)))"
      by (rule re_sub_ws_head) (rule dropWhile_head)
    with True "2.IH"(1) show ?thesis by (simp add: tidy_Cons)
  next
    case False
    with "2.IH"(2) show ?thesis by (simp add: tidy_Cons)
  qed
qed

lemma re_sub_ws_tidy: "tidy s \<Longrightarrow> re_sub_ws s = s"
proof (induction s)
  case Nil
  show ?case by simp
next
  case (Cons c cs)
  from Cons.prems have t: "tidy cs"
    and sp: "py_isspace c \<longrightarrow> c = 32 \<and> (cs = [] \<or> \<not> py_isspace (hd cs))"
    by (simp_all add: tidy_Cons)
  show ?case
  proof (cases "py_isspace c")
    case True
    with sp have "c = 32" and "dropWhile py_isspace cs = cs"
      by (auto simp: dropWhile_eq_self_iff)
    with True Cons.IH [OF t] show ?thesis by simp
  next
    case False
    with Cons.IH [OF t] show ?thesis by simp
  qed
qed

lemma tidy_prefix: "tidy (xs @ ys) \<Longrightarrow> tidy xs"
proof (induction xs)
  case Nil
  show ?case by simp
next
  case (Cons c xs)
  then show ?case by (cases xs) (auto simp: tidy_Cons)
qed

lemma tidy_suffix: "tidy (xs @ ys) \<Longrightarrow> tidy ys"
  by (induction xs) (auto simp: tidy_Cons)

lemma rstrip_prefix: "rev (dropWhile P (rev s)) @ rev (takeWhile P (rev s)) = s"
proof -
  have "rev (takeWhile P (rev s) @ dropWhile P (rev s)) = s" by simp
  then show ?thesis by (simp only: rev_append)
qed

lemma tidy_py_strip: "tidy s \<Longrightarrow> tidy (py_strip s)"
proof -
  assume "tidy s"
  then have "tidy (takeWhile py_isspace s @ dropWhile py_isspace s)" by simp
  then have "tidy (dropWhile py_isspace s)" by (rule tidy_suffix)
  then have "tidy (rev (dropWhile py_isspace (rev (dropWhile py_isspace s)))
               @ rev (takeWhile py_isspace (rev (dropWhile py_isspace s))))"
    by (simp only: rstrip_prefix)
  then show ?thesis unfolding py_strip_def by (rule tidy_prefix)
qed

lemma py_strip_idem: "py_strip (py_strip s) = py_strip s"
proof -
  let ?v = "dropWhile py_isspace s"
  let ?w = "rev (dropWhile py_isspace (rev ?v))"
  have split: "?w @ rev (takeWhile py_isspace (rev ?v)) = ?v" by (rule rstrip_prefix)
  have left: "dropWhile py_isspace ?w = ?w"
  proof (cases "?w = []")
    case True
    show ?thesis by (simp only: True dropWhile.simps)
  next
    case False
    then have "hd ?w = hd ?v" using split by (metis hd_append2)
    moreover from False split have "?v \<noteq> []" by (metis append_is_Nil_conv)
    then have "\<not> py_isspace (hd ?v)" by (rule hd_dropWhile)
    ultimately show ?thesis using False by (simp add: dropWhile_eq_self_iff)
  qed
  have right: "rev (dropWhile py_isspace (rev ?w)) = ?w" by simp
  show ?thesis unfolding py_strip_def by (simp only: left right)
qed

text \<open>
  Claim C9. The normalizer is idempotent: normalizing the result of
  \<open>normalize_whitespace\<close> again returns it unchanged, for every string and also for a
  missing value.
\<close>

theorem normalize_whitespace_idempotent:
  "normalize_whitespace (Some (normalize_whitespace (Some x))) = normalize_whitespace (Some x)
   \<and> normalize_whitespace (Some (normalize_whitespace None)) = normalize_whitespace None"
proof -
  let ?r = "py_strip (re_sub_ws x)"
  have "tidy ?r" by (intro tidy_py_strip tidy_re_sub_ws)
  then have "re_sub_ws ?r = ?r" by (rule re_sub_ws_tidy)
  then have "py_strip (re_sub_ws ?r) = ?r" by (simp add: py_strip_idem)
  then show ?thesis by (simp add: normalize_whitespace_def)
qed

section \<open>Properties of the batch chunking and of the metadata build\<close>

lemma undigits_snoc: "undigits (s @ [c]) = 10 * undigits s + (c - 48)"
  by (simp add: undigits_def)

lemma undigits_digits_of: "undigits (digits_of n) = n"
proof (induction n rule: digits_of.induct)
  case (1 n)
  show ?case
  proof (cases "n < 10")
    case True
    then show ?thesis by (subst digits_of.simps) (simp add: undigits_def)
  next
    case False
    with "1.IH" have "undigits (digits_of (n div 10)) = n div 10" by simp
    with False show ?thesis by (subst digits_of.simps) (simp add: undigits_snoc)
  qed
qed

lemma py_str_nat: "py_str (int n) = digits_of n"
  by (simp add: py_str_def)

lemma py_str_nat_inj: "py_str (int m) = py_str (int n) \<Longrightarrow> m = n"
  by (metis py_str_nat undigits_digits_of)

lemma build_metadata_other:
  "(\<And>j. j < length cs \<Longrightarrow> k \<noteq> py_str (int (i + j))) \<Longrightarrow> build_metadata i cs m k = m k"
proof (induction cs arbitrary: i m)
  case Nil
  show ?case by simp
next
  case (Cons c cs)
  have "k \<noteq> py_str (int (Suc i + j))" if "j < length cs" for j
    using Cons.prems [of "Suc j"] that by simp
  then have "build_metadata (Suc i) cs (m(py_str (int i) \<mapsto> metadata_of c)) k
      = (m(py_str (int i) \<mapsto> metadata_of c)) k"
    by (rule Cons.IH)
  moreover have "k \<noteq> py_str (int i)" using Cons.prems [of 0] by simp
  ultimately show ?case by simp
qed

lemma build_metadata_slot:
  "j < length cs \<Longrightarrow> build_metadata i cs m (py_str (int (i + j))) = Some (metadata_of (cs ! j))"
proof (induction cs arbitrary: i j m)
  case Nil
  then show ?case by simp
next
  case (Cons c cs)
  show ?case
  proof (cases j)
    case 0
    have "build_metadata (Suc i) cs (m(py_str (int i) \<mapsto> metadata_of c)) (py_str (int i))
        = (m(py_str (int i) \<mapsto> metadata_of c)) (py_str (int i))"
    proof (rule build_metadata_other)
      fix j' assume "j' < length cs"
      show "py_str (int i) \<noteq> py_str (int (Suc i + j'))"
        using py_str_nat_inj [of i "Suc i + j'"] by auto
    qed
    with 0 show ?thesis by simp
  next
    case (Suc j')
    with Cons.prems have "j' < length cs" by simp
    from Cons.IH [OF this, of "Suc i"] Suc show ?thesis by simp
  qed
qed

lemma embed_batches_concat:
  "0 < b \<Longrightarrow> concat (embed_batches encode texts b i acc) = concat acc @ map encode (drop i texts)"
proof (induction encode texts b i acc rule: embed_batches.induct)
  case (1 encode texts b i acc)
  show ?case
  proof (cases "i < length texts")
    case True
    have "py_slice texts (int i) (int i + int b) = take b (drop i texts)"
      by (simp add: py_slice_window)
    moreover have "take b (drop i texts) @ drop (i + b) texts = drop i texts"
      by (metis add.commute append_take_drop_id drop_drop)
    then have "map encode (take b (drop i texts)) @ map encode (drop (i + b) texts)
        = map encode (drop i texts)"
      by (metis map_append)
    ultimately show ?thesis
      using True "1.prems" "1.IH" by (subst embed_batches.simps) simp
  next
    case False
    then show ?thesis by (subst embed_batches.simps) simp
  qed
qed

lemma embed_batches_keeps: "acc \<noteq> [] \<Longrightarrow> embed_batches encode texts b i acc \<noteq> []"
proof (induction encode texts b i acc rule: embed_batches.induct)
  case (1 encode texts b i acc)
  show ?case
  proof (cases "i < length texts \<and> 0 < b")
    case True
    with "1.IH" show ?thesis by (subst embed_batches.simps) simp
  next
    case False
    with "1.prems" show ?thesis by (subst embed_batches.simps) (simp only: if_False not_False_eq_True)
  qed
qed

lemma embed_batches_empty: "embed_batches encode texts 32 0 [] = [] \<longleftrightarrow> texts = []"
proof (cases texts)
  case Nil
  then show ?thesis by (subst embed_batches.simps) simp
next
  case (Cons t ts)
  have "embed_batches encode texts 32 0 []
      = embed_batches encode texts 32 32 [map encode (py_slice texts 0 32)]"
    using Cons by (subst embed_batches.simps) simp
  with Cons show ?thesis by (simp add: embed_batches_keeps)
qed

lemma generate_embeddings_result:
  "generate_embeddings encode chunks =
     (if chunks = [] then Inl ValueError
      else Inr (map (\<lambda>c. encode (chunk_body c)) chunks, build_metadata 0 chunks Map.empty))"
  by (simp add: generate_embeddings_def Let_def embed_batches_empty embed_batches_concat
      comp_def)

lemma emit_chunks_numbered:
  assumes "map chunk_id cd = map int [0..<length cd]" "cid = int (length cd)"
  shows "case emit_chunks row n cks k cd cid of
           (cd', cid') \<Rightarrow> map chunk_id cd' = map int [0..<length cd'] \<and> cid' = int (length cd')"
  using assms
proof (induction cks arbitrary: k cd cid)
  case Nil
  then show ?case by simp
next
  case (Cons c cks)
  show ?case
    unfolding emit_chunks.simps
    by (rule Cons.IH) (use Cons.prems in simp_all)
qed

lemma chunk_rows_numbered:
  assumes "map chunk_id cd = map int [0..<length cd]" "cid = int (length cd)"
  shows "\<exists>cd'. chunk_rows rows cd cid = Some cd' \<and> map chunk_id cd' = map int [0..<length cd']"
  using assms
proof (induction rows arbitrary: cd cid)
  case Nil
  then show ?case by simp
next
  case (Cons row rows)
  have "\<exists>cks. chunk_text (text_clean row) CHUNK_SIZE CHUNK_OVERLAP = Some cks
          \<and> (\<forall>c \<in> set cks. int (length c) \<le> CHUNK_SIZE)"
    by (rule chunk_text_bound_aux) (simp_all add: CHUNK_SIZE_def CHUNK_OVERLAP_def)
  then obtain cks where cks: "chunk_text (text_clean row) CHUNK_SIZE CHUNK_OVERLAP = Some cks"
    by blast
  obtain cd' cid' where em: "emit_chunks row (int (length cks)) cks 0 cd cid = (cd', cid')"
    by (cases "emit_chunks row (int (length cks)) cks 0 cd cid")
  from emit_chunks_numbered [OF Cons.prems, of row "int (length cks)" cks 0] em
  have "map chunk_id cd' = map int [0..<length cd']" "cid' = int (length cd')" by simp_all
  from Cons.IH [OF this] cks em show ?case by simp
qed

lemma chunk_notes_numbered:
  "\<exists>cd. chunk_notes rows = Some cd \<and> (\<forall>j<length cd. chunk_id (cd ! j) = int j)"
proof -
  from chunk_rows_numbered [of "[]" 0 rows]
  obtain cd where run: "chunk_rows rows [] 0 = Some cd"
    and num: "map chunk_id cd = map int [0..<length cd]" by auto
  have "chunk_id (cd ! j) = int j" if "j < length cd" for j
  proof -
    from that have "chunk_id (cd ! j) = map chunk_id cd ! j" by simp
    also have "\<dots> = int j" using that by (simp only: num) simp
    finally show ?thesis .
  qed
  with run show ?thesis by (auto simp: chunk_notes_def)
qed


text \<open>
  Claim C4. For every chunk list and every slot \<open>i\<close> below its length, building the
  index and the metadata store from that list succeeds, the index holds at slot \<open>i\<close> the
  embedding of the \<open>i\<close>-th chunk's text, and the metadata store holds under the key
  \<open>str(i)\<close> a record whose \<open>chunk_id\<close> is the \<open>chunk_id\<close> of the \<open>i\<close>-th chunk.
\<close>

theorem metadata_slot_alignment:
  "i < length chunks \<Longrightarrow>
   \<exists>index metadata r. generate_embeddings encode chunks = Inr (index, metadata)
     \<and> length index = length chunks
     \<and> index ! i = encode (chunk_body (chunks ! i))
     \<and> metadata (py_str (int i)) = Some r
     \<and> meta_chunk_id r = chunk_id (chunks ! i)"
proof -
  assume i: "i < length chunks"
  then have "chunks \<noteq> []" by auto
  moreover from build_metadata_slot [OF i, of 0 Map.empty]
  have "build_metadata 0 chunks Map.empty (py_str (int i)) = Some (metadata_of (chunks ! i))"
    by simp
  ultimately show ?thesis
    using i by (simp add: generate_embeddings_result metadata_of_def)
qed

theorem metadata_slot_alignment_witness:
  "(1::nat) < length
      [\<lparr>chunk_id = 7, original_index = 3, chunk_index = 0, chunk_body = [97],
        created_at = None, modified_at = None, total_chunks = 2\<rparr>,
       \<lparr>chunk_id = 9, original_index = 3, chunk_index = 1, chunk_body = [98],
        created_at = None, modified_at = None, total_chunks = 2\<rparr>]
   \<and> (\<exists>index metadata r.
        generate_embeddings (map real)
          [\<lparr>chunk_id = 7, original_index = 3, chunk_index = 0, chunk_body = [97],
            created_at = None, modified_at = None, total_chunks = 2\<rparr>,
           \<lparr>chunk_id = 9, original_index = 3, chunk_index = 1, chunk_body = [98],
            created_at = None, modified_at = None, total_chunks = 2\<rparr>]
          = Inr (index, metadata)
        \<and> index ! 1 = [98] \<and> metadata [49] = Some r \<and> meta_chunk_id r = 9)"
  using metadata_slot_alignment [where i = 1 and encode = "map real" and chunks =
      "[\<lparr>chunk_id = 7, original_index = 3, chunk_index = 0, chunk_body = [97],
         created_at = None, modified_at = None, total_chunks = 2\<rparr>,
        \<lparr>chunk_id = 9, original_index = 3, chunk_index = 1, chunk_body = [98],
         created_at = None, modified_at = None, total_chunks = 2\<rparr>]"]
  by (simp add: generate_embeddings_result metadata_of_def py_str_def digits_of.simps)

text \<open>
  Claim C10. Batch chunking always returns, and in its output every chunk's \<open>chunk_id\<close>
  is its position in the list. Hence the metadata store built from this list holds at
  every slot \<open>i\<close> a record whose \<open>chunk_id\<close> is \<open>i\<close>.
\<close>

theorem chunk_notes_ids_are_positions:
  "\<exists>cd. chunk_notes rows = Some cd
     \<and> (\<forall>j<length cd. chunk_id (cd ! j) = int j)
     \<and> (\<forall>i<length cd. \<exists>index metadata r.
            generate_embeddings encode cd = Inr (index, metadata)
            \<and> metadata (py_str (int i)) = Some r \<and> meta_chunk_id r = int i)"
proof -
  from chunk_notes_numbered [of rows]
  obtain cd where run: "chunk_notes rows = Some cd"
    and num: "\<And>j. j < length cd \<Longrightarrow> chunk_id (cd ! j) = int j" by blast
  have "\<exists>index metadata r. generate_embeddings encode cd = Inr (index, metadata)
          \<and> metadata (py_str (int i)) = Some r \<and> meta_chunk_id r = int i"
    if i: "i < length cd" for i
  proof -
    from i have "cd \<noteq> []" by auto
    moreover from build_metadata_slot [OF i, of 0 Map.empty]
    have "build_metadata 0 cd Map.empty (py_str (int i)) = Some (metadata_of (cd ! i))"
      by simp
    ultimately show ?thesis
      using num [OF i] by (simp add: generate_embeddings_result metadata_of_def)
  qed
  with run num show ?thesis by blast
qed

theorem chunk_notes_ids_are_positions_witness:
  "chunk_notes
      [\<lparr>row_index = 0, text_clean = [97, 98], row_created_at = None, row_modified_at = None\<rparr>,
       \<lparr>row_index = 4, text_clean = [99], row_created_at = Some 5, row_modified_at = None\<rparr>]
     = Some
      [\<lparr>chunk_id = 0, original_index = 0, chunk_index = 0, chunk_body = [97, 98],
        created_at = None, modified_at = None, total_chunks = 1\<rparr>,
       \<lparr>chunk_id = 1, original_index = 4, chunk_index = 0, chunk_body = [99],
        created_at = Some 5, modified_at = None, total_chunks = 1\<rparr>]
   \<and> (\<exists>cd. chunk_notes
        [\<lparr>row_index = 0, text_clean = [97, 98], row_created_at = None, row_modified_at = None\<rparr>,
         \<lparr>row_index = 4, text_clean = [99], row_created_at = Some 5, row_modified_at = None\<rparr>]
          = Some cd
        \<and> (1::nat) < length cd \<and> chunk_id (cd ! 1) = 1
        \<and> (\<exists>index metadata r. generate_embeddings (map real) cd = Inr (index, metadata)
              \<and> metadata (py_str 1) = Some r \<and> meta_chunk_id r = 1))"
  using chunk_notes_ids_are_positions [where encode = "map real" and rows =
      "[\<lparr>row_index = 0, text_clean = [97, 98], row_created_at = None, row_modified_at = None\<rparr>,
        \<lparr>row_index = 4, text_clean = [99], row_created_at = Some 5, row_modified_at = None\<rparr>]"]
  by (simp add: chunk_notes_def chunk_text_def CHUNK_SIZE_def CHUNK_OVERLAP_def
      generate_embeddings_result metadata_of_def py_str_def digits_of.simps)

section \<open>Properties of the index search and of the retriever\<close>

lemma index_search_ranked:
  assumes "index_search xb q k = Inr (distances, indices)"
  shows "0 \<le> k \<and> distances = map snd (take (nat k) (sort_key snd
             (map (\<lambda>(slot, v). (int slot, l2_sqr q v)) (enumerate 0 xb))))
         \<and> indices = map fst (take (nat k) (sort_key snd
             (map (\<lambda>(slot, v). (int slot, l2_sqr q v)) (enumerate 0 xb))))"
  using assms by (auto simp: index_search_def Let_def split: if_splits)

lemma index_search_total:
  "0 \<le> k \<Longrightarrow> \<exists>distances indices. index_search xb q k = Inr (distances, indices)"
  by (simp add: index_search_def Let_def)

lemma scored_member:
  assumes "p \<in> set (map (\<lambda>(slot, v). (int slot, l2_sqr q v)) (enumerate 0 xb))"
  shows "\<exists>s < length xb. p = (int s, l2_sqr q (xb ! s))"
proof -
  from assms obtain s v where sv: "(s, v) \<in> set (enumerate 0 xb)"
    and p: "p = (int s, l2_sqr q v)" by auto
  from sv have "s < length xb" "xb ! s = v" by (simp_all add: in_set_enumerate_eq)
  with p show ?thesis by blast
qed

lemma scored_covers:
  assumes "v \<in> set xb"
  shows "l2_sqr q v \<in> snd ` set (map (\<lambda>(slot, v). (int slot, l2_sqr q v)) (enumerate 0 xb))"
proof -
  from assms obtain s where s: "s < length xb" "xb ! s = v" by (auto simp: in_set_conv_nth)
  then have "(s, v) \<in> set (enumerate 0 xb)" by (simp add: in_set_enumerate_eq)
  then have "(int s, l2_sqr q v) \<in> set (map (\<lambda>(slot, v). (int slot, l2_sqr q v)) (enumerate 0 xb))"
    by force
  then show ?thesis by force
qed

lemma sorted_hd_least:
  assumes "sorted (map f xs)" "x \<in> set xs"
  shows "f (hd xs) \<le> f x"
  using assms by (cases xs) auto

lemma index_search_sound:
  assumes run: "index_search xb q k = Inr (distances, indices)"
  shows "sorted distances"
    and "length distances = length indices"
    and "int (length indices) = min k (int (length xb))"
    and "\<And>j. j < length indices \<Longrightarrow>
           0 \<le> indices ! j \<and> indices ! j < int (length xb)
           \<and> distances ! j = l2_sqr q (xb ! nat (indices ! j))"
    and "\<And>v. distances \<noteq> [] \<Longrightarrow> v \<in> set xb \<Longrightarrow> hd distances \<le> l2_sqr q v"
proof -
  let ?scored = "map (\<lambda>(slot, v). (int slot, l2_sqr q v)) (enumerate 0 xb)"
  let ?sorted = "sort_key snd ?scored"
  let ?ranked = "take (nat k) ?sorted"
  from index_search_ranked [OF run]
  have k: "0 \<le> k" and D: "distances = map snd ?ranked" and I: "indices = map fst ?ranked"
    by simp_all
  have srt: "sorted (map snd ?sorted)" by (rule sorted_sort_key)
  then have "sorted (take (nat k) (map snd ?sorted))" by (rule sorted_wrt_take)
  then show "sorted distances" by (simp only: D take_map)
  show "length distances = length indices" by (simp add: D I)
  have "length indices = min (nat k) (length xb)" by (simp add: I min.commute)
  then show "int (length indices) = min k (int (length xb))"
    using k by arith
  show "0 \<le> indices ! j \<and> indices ! j < int (length xb)
          \<and> distances ! j = l2_sqr q (xb ! nat (indices ! j))" if "j < length indices" for j
  proof -
    from that have j: "j < length ?ranked" by (simp add: I)
    then have "?ranked ! j \<in> set ?ranked" by (rule nth_mem)
    then have "?ranked ! j \<in> set ?sorted" by (rule set_mp [OF set_take_subset])
    then have "?ranked ! j \<in> set ?scored" by (simp only: set_sort)
    from scored_member [OF this]
    obtain s where s: "s < length xb" "?ranked ! j = (int s, l2_sqr q (xb ! s))" by blast
    have "indices ! j = fst (?ranked ! j)" "distances ! j = snd (?ranked ! j)"
      using j by (simp_all only: I D nth_map)
    with s show ?thesis by simp
  qed
  show "hd distances \<le> l2_sqr q v" if ne: "distances \<noteq> []" and v: "v \<in> set xb" for v
  proof -
    from ne have r: "?ranked \<noteq> []" by (simp add: D)
    then have kpos: "0 < nat k" by (cases "nat k") simp_all
    from scored_covers [OF v, of q]
    obtain p where p: "p \<in> set ?scored" "snd p = l2_sqr q v" by force
    then have "p \<in> set ?sorted" by (simp only: set_sort)
    from sorted_hd_least [OF srt this] have "snd (hd ?sorted) \<le> l2_sqr q v"
      by (simp only: p)
    moreover have "hd (map snd ?ranked) = snd (hd ?ranked)" using r by (rule hd_map)
    moreover have "hd ?ranked = hd ?sorted" using kpos by (rule hd_take)
    ultimately have "hd (map snd ?ranked) \<le> l2_sqr q v" by simp
    then show ?thesis by (simp only: D)
  qed
qed

lemma collect_results_eq:
  "collect_results metadata hits results =
     results @ List.map_filter
       (\<lambda>(idx, d). map_option (\<lambda>m. result_of m d) (metadata (py_str idx))) hits"
proof (induction hits arbitrary: results)
  case Nil
  show ?case by (simp add: List.map_filter_simps)
next
  case (Cons hit hits)
  obtain idx d where hit: "hit = (idx, d)" by (cases hit)
  show ?case
    by (cases "metadata (py_str idx)")
      (simp_all add: hit Cons.IH List.map_filter_simps result_of_def)
qed

lemma res_distance_result_of: "res_distance (result_of m d) = d"
  by (simp add: result_of_def)

lemma collect_results_distances:
  "map res_distance (List.map_filter
       (\<lambda>(idx, d). map_option (\<lambda>m. result_of m d) (metadata (py_str idx))) hits)
   = map snd (filter (\<lambda>(idx, d). metadata (py_str idx) \<noteq> None) hits)"
proof (induction hits)
  case Nil
  show ?case by (simp add: List.map_filter_simps)
next
  case (Cons hit hits)
  obtain idx d where hit: "hit = (idx, d)" by (cases hit)
  show ?case
    by (cases "metadata (py_str idx)")
      (simp_all add: hit Cons.IH List.map_filter_simps res_distance_result_of)
qed

lemma retrieve_eq:
  assumes "index_search index (encode query) (min top_k (int (length index)))
             = Inr (distances, indices)"
  shows "retrieve encode index metadata query top_k =
     Inr (List.map_filter
       (\<lambda>(idx, d). map_option (\<lambda>m. result_of m d) (metadata (py_str idx)))
       (zip indices distances))"
  using assms by (simp add: retrieve_def Let_def collect_results_eq)

lemma retrieve_search:
  assumes "retrieve encode index metadata query top_k = Inr results"
  shows "\<exists>distances indices.
           index_search index (encode query) (min top_k (int (length index)))
             = Inr (distances, indices)"
  using assms by (auto simp: retrieve_def Let_def split: sum.splits)

lemma length_map_filter_le: "length (List.map_filter f xs) \<le> length xs"
  by (induction xs) (auto simp: List.map_filter_simps split: option.splits)

lemmas search_eval = index_search_def retrieve_def Let_def l2_sqr_def
  sort_key_def power2_eq_square py_str_def digits_of.simps

text \<open>
  Claim C5. Whatever a search returns is in non-decreasing order of distance, every
  returned distance is the squared Euclidean distance between the query vector and the
  vector stored at the returned slot, and the first distance is at most the distance from
  the query to any stored vector. The results of \<open>retrieve\<close> keep that order, and each of
  their distances is the squared Euclidean distance from the query embedding to a stored
  vector.
\<close>

theorem search_ordering:
  "(index_search index q k = Inr (distances, indices) \<longrightarrow>
      sorted distances \<and> length distances = length indices
      \<and> (\<forall>j<length indices. 0 \<le> indices ! j \<and> indices ! j < int (length index)
             \<and> distances ! j = l2_sqr q (index ! nat (indices ! j)))
      \<and> (distances \<noteq> [] \<longrightarrow> (\<forall>v \<in> set index. hd distances \<le> l2_sqr q v)))
   \<and> (retrieve encode index metadata query top_k = Inr results \<longrightarrow>
        sorted (map res_distance results)
        \<and> (\<forall>r \<in> set results. \<exists>v \<in> set index. res_distance r = l2_sqr (encode query) v))"
proof (intro conjI impI)
  assume run: "index_search index q k = Inr (distances, indices)"
  show "sorted distances" by (rule index_search_sound(1) [OF run])
  show "length distances = length indices" by (rule index_search_sound(2) [OF run])
  show "\<forall>j<length indices. 0 \<le> indices ! j \<and> indices ! j < int (length index)
       \<and> distances ! j = l2_sqr q (index ! nat (indices ! j))"
    using index_search_sound(4) [OF run] by blast
  show "\<forall>v \<in> set index. hd distances \<le> l2_sqr q v" if "distances \<noteq> []"
    using index_search_sound(5) [OF run that] by blast
next
  assume ret: "retrieve encode index metadata query top_k = Inr results"
  from retrieve_search [OF ret] obtain D I
    where run: "index_search index (encode query) (min top_k (int (length index))) = Inr (D, I)"
    by blast
  note sound = index_search_sound [OF run]
  let ?kept = "filter (\<lambda>(idx, d). metadata (py_str idx) \<noteq> None) (zip I D)"
  have res: "results = List.map_filter
       (\<lambda>(idx, d). map_option (\<lambda>m. result_of m d) (metadata (py_str idx))) (zip I D)"
    using ret retrieve_eq [where encode = encode and query = query and metadata = metadata, OF run]
    by simp
  have dist: "map res_distance results = map snd ?kept"
    unfolding res by (rule collect_results_distances)
  have "sorted (map snd (zip I D))" using sound(1,2) by simp
  then have "sorted (map snd ?kept)" by (rule sorted_filter)
  then show "sorted (map res_distance results)" by (simp only: dist)
  show "\<forall>r \<in> set results. \<exists>v \<in> set index. res_distance r = l2_sqr (encode query) v"
  proof
    fix r assume "r \<in> set results"
    then have "res_distance r \<in> set (map res_distance results)" by simp
    then have "res_distance r \<in> set (map snd ?kept)" by (simp only: dist)
    then have "res_distance r \<in> set (map snd (zip I D))" by auto
    then have "res_distance r \<in> set D" using sound(2) by simp
    then obtain j where j: "j < length D" "D ! j = res_distance r"
      by (auto simp: in_set_conv_nth)
    with sound(2) have jI: "j < length I" by simp
    from sound(4) [OF jI] j
    have "nat (I ! j) < length index"
      and "res_distance r = l2_sqr (encode query) (index ! nat (I ! j))" by auto
    then show "\<exists>v \<in> set index. res_distance r = l2_sqr (encode query) v"
      using nth_mem by blast
  qed
qed

theorem search_ordering_witness:
  "index_search [[1, 0], [0, 0], [3, 4]] [0, 1] 2 = Inr ([1, 2], [1, 0])
   \<and> sorted [1, 2 :: real] \<and> length [1, 2 :: real] = length [1, 0 :: int]
   \<and> (0::int) \<le> [1, 0] ! 1 \<and> [1, 0] ! 1 < int (length [[1, 0], [0, 0], [3, 4 :: real]])
   \<and> [1, 2] ! 1 = l2_sqr [0, 1] ([[1, 0], [0, 0], [3, 4]] ! nat ([1, 0] ! 1))
   \<and> [1, 2 :: real] \<noteq> [] \<and> hd [1, 2] \<le> l2_sqr [0, 1] [3, 4]
   \<and> retrieve (map real) [[1, 0], [0, 0], [3, 4]]
         [[48] \<mapsto> \<lparr>meta_chunk_id = 0, meta_text = [97], meta_original_index = 0,
                   meta_created_at = None, meta_modified_at = None\<rparr>,
          [49] \<mapsto> \<lparr>meta_chunk_id = 1, meta_text = [98], meta_original_index = 0,
                   meta_created_at = None, meta_modified_at = None\<rparr>]
         [0, 1] 2
       = Inr [\<lparr>res_text = [98], res_chunk_id = 1, res_original_index = 0,
                res_created_at = None, res_modified_at = None, res_distance = 1\<rparr>,
              \<lparr>res_text = [97], res_chunk_id = 0, res_original_index = 0,
                res_created_at = None, res_modified_at = None, res_distance = 2\<rparr>]
   \<and> sorted (map res_distance
        [\<lparr>res_text = [98], res_chunk_id = 1, res_original_index = 0,
           res_created_at = None, res_modified_at = None, res_distance = 1\<rparr>,
         \<lparr>res_text = [97], res_chunk_id = 0, res_original_index = 0,
           res_created_at = None, res_modified_at = None, res_distance = 2\<rparr>])"
  using search_ordering [where index = "[[1, 0], [0, 0], [3, 4]]" and q = "[0, 1]" and k = 2
      and distances = "[1, 2]" and indices = "[1, 0]" and encode = "map real"
      and query = "[0, 1]" and top_k = 2
      and metadata = "[[48] \<mapsto> \<lparr>meta_chunk_id = 0, meta_text = [97], meta_original_index = 0,
                   meta_created_at = None, meta_modified_at = None\<rparr>,
          [49] \<mapsto> \<lparr>meta_chunk_id = 1, meta_text = [98], meta_original_index = 0,
                   meta_created_at = None, meta_modified_at = None\<rparr>]"
      and results = "[\<lparr>res_text = [98], res_chunk_id = 1, res_original_index = 0,
                res_created_at = None, res_modified_at = None, res_distance = 1\<rparr>,
              \<lparr>res_text = [97], res_chunk_id = 0, res_original_index = 0,
                res_created_at = None, res_modified_at = None, res_distance = 2\<rparr>]"]
  by (simp add: search_eval)

text \<open>
  Claim C7. For every query and every requested \<open>k \<ge> 0\<close> the search does not fail and
  returns \<open>min(k, N)\<close> results, \<open>N\<close> being the number of stored vectors; so a \<open>k\<close> greater
  than \<open>N\<close> gives exactly \<open>N\<close> results. \<open>retrieve\<close> searches with \<open>min(top_k, N)\<close> and returns
  at most that many results.
\<close>

theorem search_k_clamping:
  "0 \<le> top_k \<Longrightarrow>
   \<exists>distances indices distances' indices' results.
     index_search index (encode query) top_k = Inr (distances, indices)
     \<and> int (length indices) = min top_k (int (length index))
     \<and> (int (length index) < top_k \<longrightarrow> length indices = length index)
     \<and> index_search index (encode query) (min top_k (int (length index)))
          = Inr (distances', indices')
     \<and> int (length indices') = min top_k (int (length index))
     \<and> length distances' = length indices'
     \<and> retrieve encode index metadata query top_k = Inr results
     \<and> int (length results) \<le> min top_k (int (length index))"
proof -
  assume k: "0 \<le> top_k"
  let ?n = "int (length index)"
  from index_search_total [OF k] obtain D I
    where lib: "index_search index (encode query) top_k = Inr (D, I)" by blast
  have "0 \<le> min top_k ?n" using k by simp
  from index_search_total [OF this] obtain D' I'
    where run: "index_search index (encode query) (min top_k ?n) = Inr (D', I')" by blast
  have lenI: "int (length I) = min top_k ?n" using index_search_sound(3) [OF lib] .
  have lenI': "int (length I') = min top_k ?n" using index_search_sound(3) [OF run] by simp
  have lenD': "length D' = length I'" using index_search_sound(2) [OF run] .
  let ?results = "List.map_filter
       (\<lambda>(idx, d). map_option (\<lambda>m. result_of m d) (metadata (py_str idx))) (zip I' D')"
  have ret: "retrieve encode index metadata query top_k = Inr ?results"
    by (rule retrieve_eq [where encode = encode and query = query, OF run])
  have "length ?results \<le> length (zip I' D')" by (rule length_map_filter_le)
  also have "\<dots> = length I'" using lenD' by simp
  finally have "int (length ?results) \<le> int (length I')" by simp
  then have "int (length ?results) \<le> min top_k ?n" by (simp only: lenI')
  with lib run ret lenI lenI' lenD' show ?thesis by (intro exI conjI impI) simp_all
qed

theorem search_k_clamping_witness:
  "(0::int) \<le> 5
   \<and> index_search [[1, 0], [0, 0]] (map real [0, 1]) 5 = Inr ([1, 2], [1, 0])
   \<and> int (length [1, 0 :: int]) = min 5 (int (length [[1, 0], [0, 0 :: real]]))
   \<and> int (length [[1, 0], [0, 0 :: real]]) < 5
   \<and> length [1, 0 :: int] = length [[1, 0], [0, 0 :: real]]
   \<and> (\<exists>results. retrieve (map real) [[1, 0], [0, 0]] Map.empty [0, 1] 5 = Inr results
         \<and> int (length results) \<le> min 5 (int (length [[1, 0], [0, 0 :: real]])))"
  using search_k_clamping [where top_k = 5 and index = "[[1, 0], [0, 0]]"
      and encode = "map real" and query = "[0, 1]" and metadata = Map.empty]
  by (simp add: search_eval)

text \<open>
  Claim C8. For every query, every metadata store and every \<open>top_k \<ge> 0\<close>, \<open>retrieve\<close>
  returns normally: a returned slot without a metadata record is dropped, and every
  returned slot with a record yields its result, in the order of the search.
\<close>

theorem retrieve_skips_missing_metadata:
  "0 \<le> top_k \<Longrightarrow>
   \<exists>distances indices.
     index_search index (encode query) (min top_k (int (length index)))
       = Inr (distances, indices)
     \<and> retrieve encode index metadata query top_k =
         Inr (List.map_filter
               (\<lambda>(idx, d). map_option (\<lambda>m. result_of m d) (metadata (py_str idx)))
               (zip indices distances))"
proof -
  assume "0 \<le> top_k"
  then have "0 \<le> min top_k (int (length index))" by simp
  from index_search_total [OF this] obtain D I
    where run: "index_search index (encode query) (min top_k (int (length index))) = Inr (D, I)"
    by blast
  with retrieve_eq [where encode = encode and query = query, OF run] show ?thesis by blast
qed

theorem retrieve_skips_missing_metadata_witness:
  "(0::int) \<le> 3
   \<and> index_search [[1, 0], [0, 0], [3, 4]] (map real [0, 1]) (min 3 (int (length
         [[1, 0], [0, 0], [3, 4 :: real]]))) = Inr ([1, 2, 18], [1, 0, 2])
   \<and> retrieve (map real) [[1, 0], [0, 0], [3, 4]]
         [[49] \<mapsto> \<lparr>meta_chunk_id = 1, meta_text = [98], meta_original_index = 0,
                   meta_created_at = None, meta_modified_at = None\<rparr>,
          [50] \<mapsto> \<lparr>meta_chunk_id = 2, meta_text = [99], meta_original_index = 1,
                   meta_created_at = None, meta_modified_at = None\<rparr>]
         [0, 1] 3
       = Inr [\<lparr>res_text = [98], res_chunk_id = 1, res_original_index = 0,
                res_created_at = None, res_modified_at = None, res_distance = 1\<rparr>,
              \<lparr>res_text = [99], res_chunk_id = 2, res_original_index = 1,
                res_created_at = None, res_modified_at = None, res_distance = 18\<rparr>]"
  using retrieve_skips_missing_metadata [where top_k = 3
      and index = "[[1, 0], [0, 0], [3, 4]]" and encode = "map real" and query = "[0, 1]"
      and metadata = "[[49] \<mapsto> \<lparr>meta_chunk_id = 1, meta_text = [98], meta_original_index = 0,
                   meta_created_at = None, meta_modified_at = None\<rparr>,
          [50] \<mapsto> \<lparr>meta_chunk_id = 2, meta_text = [99], meta_original_index = 1,
                   meta_created_at = None, meta_modified_at = None\<rparr>]"]
  by (simp add: search_eval)


end
